theory Spec2Isabelle
  imports Complex_Main "HOL-Library.Word" "HOL-Library.Monad_Syntax"
begin

unbundle bit_operations_syntax

section \<open>Go values: slices, loops, run-time panics\<close>

text \<open>
  Go's \<open>int\<close> is modelled as the unbounded \<open>int\<close> (coordinates and sizes of images that
  fit in memory stay far from the 64-bit limits); \<open>uint8\<close>, \<open>uint16\<close> and \<open>uint\<close> are
  \<open>8 word\<close>, \<open>16 word\<close> and \<open>64 word\<close>. A run-time panic (index out of range,
  negative slice length) is the value \<open>None\<close> of an option type.
\<close>

type_synonym uint8 = "8 word"
type_synonym uint = "64 word"

definition idx :: "'a list \<Rightarrow> int \<Rightarrow> 'a option" where
  "idx xs i = (if 0 \<le> i \<and> i < int (length xs) then Some (xs ! nat i) else None)"

definition upd :: "'a list \<Rightarrow> int \<Rightarrow> 'a \<Rightarrow> 'a list option" where
  "upd xs i v = (if 0 \<le> i \<and> i < int (length xs) then Some (xs[nat i := v]) else None)"

text \<open>\<open>d[y][x]\<close> and \<open>d[y][x] = v\<close> on a slice of slices.\<close>

definition get2 :: "'a list list \<Rightarrow> int \<Rightarrow> int \<Rightarrow> 'a option" where
  "get2 d y x = (case idx d y of None \<Rightarrow> None | Some row \<Rightarrow> idx row x)"

definition set2 :: "'a list list \<Rightarrow> int \<Rightarrow> int \<Rightarrow> 'a \<Rightarrow> 'a list list option" where
  "set2 d y x v =
     (case idx d y of None \<Rightarrow> None
      | Some row \<Rightarrow> (case upd row x v of None \<Rightarrow> None | Some row' \<Rightarrow> upd d y row'))"

text \<open>\<open>make([]T, n)\<close>: a slice of \<open>n\<close> zero values; a negative length panics.\<close>

definition make_slice :: "int \<Rightarrow> 'a \<Rightarrow> 'a list option" where
  "make_slice n z = (if n < 0 then None else Some (replicate (nat n) z))"

text \<open>A loop body run over a list of indices, stopping at the first panic.\<close>

fun ofold :: "('i \<Rightarrow> 's \<Rightarrow> 's option) \<Rightarrow> 'i list \<Rightarrow> 's \<Rightarrow> 's option" where
  "ofold body [] s = Some s"
| "ofold body (i # is) s = (case body i s of None \<Rightarrow> None | Some s' \<Rightarrow> ofold body is s')"

text \<open>\<open>for i := lo; i < hi; i++ { body }\<close>\<close>

definition for_range :: "int \<Rightarrow> int \<Rightarrow> (int \<Rightarrow> 's \<Rightarrow> 's option) \<Rightarrow> 's \<Rightarrow> 's option" where
  "for_range lo hi body s = ofold body [lo..hi - 1] s"

section \<open>The image types\<close>

record Pixel =
  R :: uint8
  G :: uint8
  B :: uint8

record Point =
  X :: int
  Y :: int

record PPM =
  ppm_data :: "Pixel list list"
  ppm_width :: int
  ppm_height :: int
  ppm_magicNumber :: string
  ppm_max :: uint8

record PGM =
  pgm_data :: "uint8 list list"
  pgm_width :: int
  pgm_height :: int
  pgm_magicNumber :: string
  pgm_max :: uint


definition zero_Pixel :: Pixel where
  "zero_Pixel = \<lparr>R = 0, G = 0, B = 0\<rparr>"

text \<open>A grid is well formed when it has \<open>height\<close> rows of \<open>width\<close> samples each.\<close>

definition rect :: "'a list list \<Rightarrow> int \<Rightarrow> int \<Rightarrow> bool" where
  "rect d w h \<longleftrightarrow> 0 \<le> w \<and> 0 \<le> h \<and> int (length d) = h \<and> list_all (\<lambda>row. int (length row) = w) d"

section \<open>Pixel access\<close>

definition PPM_At :: "PPM \<Rightarrow> int \<Rightarrow> int \<Rightarrow> Pixel option" where
  "PPM_At ppm x y = get2 (ppm_data ppm) y x"

definition PPM_Set :: "PPM \<Rightarrow> int \<Rightarrow> int \<Rightarrow> Pixel \<Rightarrow> PPM option" where
  "PPM_Set ppm x y v =
     (case set2 (ppm_data ppm) y x v of None \<Rightarrow> None
      | Some d \<Rightarrow> Some (ppm\<lparr>ppm_data := d\<rparr>))"

section \<open>64-bit integers and loops that may not end\<close>

text \<open>
  Where an \<open>int\<close> of the program can leave the 64-bit range, the wrap-around of Go's
  arithmetic is written out: \<open>wrap64\<close> maps the exact result to the two's complement value
  the machine keeps.
\<close>

definition int64 :: "int \<Rightarrow> bool" where
  "int64 n \<longleftrightarrow> - (2 ^ 63) \<le> n \<and> n < 2 ^ 63"

definition wrap64 :: "int \<Rightarrow> int" where
  "wrap64 n = (n + 2 ^ 63) mod 2 ^ 64 - 2 ^ 63"

text \<open>
  \<open>for i := lo; i <= hi; i++ { body }\<close> on 64-bit integers. With \<open>hi\<close> the greatest
  integer the condition never fails, so the loop is a partial function: \<open>None\<close> when it
  does not return, \<open>Some None\<close> when the body panics, \<open>Some (Some s)\<close> when it ends in
  state \<open>s\<close>.
\<close>

partial_function (option) for_le ::
  "int \<Rightarrow> int \<Rightarrow> (int \<Rightarrow> 's \<Rightarrow> 's option option) \<Rightarrow> 's \<Rightarrow> 's option option" where
  "for_le i hi body s =
     (if i \<le> hi
      then Option.bind (body i s)
             (\<lambda>r. if r = None then Some None else for_le (wrap64 (i + 1)) hi body (the r))
      else Some (Some s))"

section \<open>Circles\<close>

definition DrawCircle :: "PPM \<Rightarrow> Point \<Rightarrow> int \<Rightarrow> Pixel \<Rightarrow> PPM option option" where
  "DrawCircle ppm center radius color =
     for_le (wrap64 (- radius)) radius (\<lambda>x.
       for_le (wrap64 (- radius)) radius (\<lambda>y p.
         Some (if wrap64 (wrap64 (x * x) + wrap64 (y * y)) \<le> wrap64 (radius * radius)
               then PPM_Set p (wrap64 (X center + x)) (wrap64 (Y center + y)) color
               else Some p))) ppm"

definition DrawFilledCircle :: "PPM \<Rightarrow> Point \<Rightarrow> int \<Rightarrow> Pixel \<Rightarrow> PPM option option" where
  "DrawFilledCircle ppm center radius color =
     for_le (wrap64 (- radius)) radius (\<lambda>x.
       for_le (wrap64 (- radius)) radius (\<lambda>y p.
         Some (if wrap64 (wrap64 (x * x) + wrap64 (y * y)) \<le> wrap64 (radius * radius)
               then PPM_Set p (wrap64 (X center + x)) (wrap64 (Y center + y)) color
               else Some p))) ppm"


section \<open>Sequences of pixel writes, discs, sample images\<close>

definition set_all :: "PPM \<Rightarrow> (int \<times> int) list \<Rightarrow> Pixel \<Rightarrow> PPM option" where
  "set_all p pts c = ofold (\<lambda>(x, y) q. PPM_Set q x y c) pts p"

definition in_disc :: "int \<Rightarrow> int \<Rightarrow> int \<Rightarrow> bool" where
  "in_disc r dx dy \<longleftrightarrow> - r \<le> dx \<and> dx \<le> r \<and> - r \<le> dy \<and> dy \<le> r \<and> dx * dx + dy * dy \<le> r * r"

definition circle_points :: "Point \<Rightarrow> int \<Rightarrow> (int \<times> int) list" where
  "circle_points c r =
     map (\<lambda>(x, y). (X c + x, Y c + y))
       (filter (\<lambda>(x, y). x * x + y * y \<le> r * r)
          (concat (map (\<lambda>x. map (Pair x) [- r..r]) [- r..r])))"

text \<open>The coordinates the circle loops write, each sum wrapped to 64 bits.\<close>

definition circle_writes :: "Point \<Rightarrow> int \<Rightarrow> (int \<times> int) list" where
  "circle_writes c r =
     map (\<lambda>(x, y). (wrap64 (X c + x), wrap64 (Y c + y)))
       (filter (\<lambda>(x, y). x * x + y * y \<le> r * r)
          (concat (map (\<lambda>x. map (Pair x) [- r..r]) [- r..r])))"

text \<open>A Go slice has fewer than \<open>2 ^ 62\<close> elements.\<close>

definition go_sized :: "'a list list \<Rightarrow> bool" where
  "go_sized d \<longleftrightarrow> int (length d) < 2 ^ 62 \<and> list_all (\<lambda>row. int (length row) < 2 ^ 62) d"

definition g3 :: PPM where
  "g3 = \<lparr>ppm_data = replicate 3 (replicate 3 zero_Pixel), ppm_width = 3, ppm_height = 3,
         ppm_magicNumber = ''P3'', ppm_max = 255\<rparr>"

definition red :: Pixel where
  "red = \<lparr>R = 255, G = 0, B = 0\<rparr>"


definition green :: Pixel where
  "green = \<lparr>R = 0, G = 255, B = 0\<rparr>"

definition blue :: Pixel where
  "blue = \<lparr>R = 0, G = 0, B = 255\<rparr>"

definition ppm32 :: PPM where
  "ppm32 = \<lparr>ppm_data = [[red, green, blue], [green, blue, blue]], ppm_width = 3, ppm_height = 2,
            ppm_magicNumber = ''P3'', ppm_max = 255\<rparr>"

definition pgm32 :: PGM where
  "pgm32 = \<lparr>pgm_data = [[10, 20, 30], [40, 50, 60]], pgm_width = 3, pgm_height = 2,
            pgm_magicNumber = ''P2'', pgm_max = 255\<rparr>"

section \<open>Floating point: IEEE 754 binary64\<close>

text \<open>
  Go's \<open>float64\<close>: a finite value is the rational it denotes, every operation returns the
  exact result rounded to the nearest representable value, ties to even. A zero divisor in this
  program is always the conversion of the integer 0, so the sign of zero is not modelled.
\<close>

datatype float64 = Fin rat | PInf | NInf | NaN

definition pow2 :: "int \<Rightarrow> rat" where
  "pow2 e = (if 0 \<le> e then 2 ^ nat e else 1 / 2 ^ nat (- e))"

definition round_even :: "rat \<Rightarrow> int" where
  "round_even q =
     (let f = \<lfloor>q\<rfloor>; d = q - of_int f
      in if d < 1 / 2 then f else if 1 / 2 < d then f + 1 else if even f then f else f + 1)"

text \<open>
  The binary exponent of a positive rational, \<open>2 ^ e \<le> q < 2 ^ (e + 1)\<close>, found by halving
  or doubling \<open>q\<close> until it lies between 1 and 2.
\<close>

function halvings :: "rat \<Rightarrow> int" where
  "halvings q = (if 2 \<le> q then halvings (q / 2) + 1 else 0)"
  by pat_completeness auto
termination
proof (relation "measure (\<lambda>q. nat \<lfloor>q\<rfloor>)")
  show "wf (measure (\<lambda>q::rat. nat \<lfloor>q\<rfloor>))" by simp
next
  fix q :: rat
  assume q: "2 \<le> q"
  have "q < of_int \<lfloor>q\<rfloor> + 1" by linarith
  moreover have "(1::rat) \<le> of_int \<lfloor>q\<rfloor>" using q by (simp add: le_floor_iff)
  ultimately have "q / 2 < of_int \<lfloor>q\<rfloor>" by linarith
  then have "\<lfloor>q / 2\<rfloor> < \<lfloor>q\<rfloor>" by (simp add: floor_less_iff)
  moreover have "0 < \<lfloor>q\<rfloor>" using q by (simp add: less_floor_iff)
  ultimately have "nat \<lfloor>q / 2\<rfloor> < nat \<lfloor>q\<rfloor>" by linarith
  then show "(q / 2, q) \<in> measure (\<lambda>q. nat \<lfloor>q\<rfloor>)"
    unfolding in_measure .
qed

function doublings :: "rat \<Rightarrow> int" where
  "doublings q = (if 0 < q \<and> q < 1 then doublings (q * 2) + 1 else 0)"
  by pat_completeness auto
termination
proof (relation "measure (\<lambda>q. nat \<lfloor>1 / q\<rfloor>)")
  show "wf (measure (\<lambda>q::rat. nat \<lfloor>1 / q\<rfloor>))" by simp
next
  fix q :: rat
  assume q: "0 < q \<and> q < 1"
  define x where "x = 1 / q"
  have x: "1 < x" using q by (simp add: x_def)
  have h: "1 / (q * 2) = x / 2" by (simp add: x_def)
  have "x < of_int \<lfloor>x\<rfloor> + 1" by linarith
  moreover have "(1::rat) \<le> of_int \<lfloor>x\<rfloor>" using x by (simp add: le_floor_iff)
  ultimately have "x / 2 < of_int \<lfloor>x\<rfloor>" by linarith
  then have "\<lfloor>x / 2\<rfloor> < \<lfloor>x\<rfloor>" by (simp add: floor_less_iff)
  moreover have "0 < \<lfloor>x\<rfloor>" using x by (simp add: less_floor_iff)
  ultimately have "nat \<lfloor>x / 2\<rfloor> < nat \<lfloor>x\<rfloor>" by linarith
  then show "(q * 2, q) \<in> measure (\<lambda>q. nat \<lfloor>1 / q\<rfloor>)"
    unfolding in_measure h x_def .
qed

definition ilog2 :: "rat \<Rightarrow> int" where
  "ilog2 q = (if 1 \<le> q then halvings q else - doublings q)"

text \<open>
  Rounding to 53 significant bits; below the normal range the spacing stays \<open>2 ^ (- 1074)\<close>,
  and a result of magnitude \<open>2 ^ 1024\<close> or more is an infinity.
\<close>

definition round64 :: "rat \<Rightarrow> float64" where
  "round64 q =
     (if q = 0 then Fin 0
      else let a = \<bar>q\<bar>;
               e = max (ilog2 a) (- 1022);
               u = pow2 (e - 52);
               r = of_int (round_even (a / u)) * u
           in if pow2 1024 \<le> r then (if 0 < q then PInf else NInf)
              else Fin (if 0 < q then r else - r))"

text \<open>\<open>float64(n)\<close> for an integer \<open>n\<close>.\<close>

definition f64_of_int :: "int \<Rightarrow> float64" where
  "f64_of_int n = round64 (of_int n)"


definition f64_add :: "float64 \<Rightarrow> float64 \<Rightarrow> float64" where
  "f64_add x y =
     (case x of
        Fin a \<Rightarrow> (case y of Fin b \<Rightarrow> round64 (a + b) | PInf \<Rightarrow> PInf | NInf \<Rightarrow> NInf | NaN \<Rightarrow> NaN)
      | PInf \<Rightarrow> (case y of Fin b \<Rightarrow> PInf | PInf \<Rightarrow> PInf | NInf \<Rightarrow> NaN | NaN \<Rightarrow> NaN)
      | NInf \<Rightarrow> (case y of Fin b \<Rightarrow> NInf | PInf \<Rightarrow> NaN | NInf \<Rightarrow> NInf | NaN \<Rightarrow> NaN)
      | NaN \<Rightarrow> NaN)"

definition f64_neg :: "float64 \<Rightarrow> float64" where
  "f64_neg x = (case x of Fin a \<Rightarrow> Fin (- a) | PInf \<Rightarrow> NInf | NInf \<Rightarrow> PInf | NaN \<Rightarrow> NaN)"

definition f64_sub :: "float64 \<Rightarrow> float64 \<Rightarrow> float64" where
  "f64_sub a b = f64_add a (f64_neg b)"

text \<open>The sign of an infinite product or quotient, from the signs of the operands.\<close>

definition signed_inf :: "bool \<Rightarrow> float64" where
  "signed_inf positive = (if positive then PInf else NInf)"


definition f64_div :: "float64 \<Rightarrow> float64 \<Rightarrow> float64" where
  "f64_div x y =
     (case x of
        Fin a \<Rightarrow>
          (case y of
             Fin b \<Rightarrow>
               (if b = 0 then (if a = 0 then NaN else signed_inf (0 < a)) else round64 (a / b))
           | PInf \<Rightarrow> Fin 0 | NInf \<Rightarrow> Fin 0 | NaN \<Rightarrow> NaN)
      | PInf \<Rightarrow> (case y of Fin b \<Rightarrow> signed_inf (0 \<le> b) | PInf \<Rightarrow> NaN | NInf \<Rightarrow> NaN | NaN \<Rightarrow> NaN)
      | NInf \<Rightarrow> (case y of Fin b \<Rightarrow> signed_inf (b < 0) | PInf \<Rightarrow> NaN | NInf \<Rightarrow> NaN | NaN \<Rightarrow> NaN)
      | NaN \<Rightarrow> NaN)"

text \<open>\<open>a < b\<close> and \<open>a > b\<close>: false as soon as an operand is NaN.\<close>

definition f64_less :: "float64 \<Rightarrow> float64 \<Rightarrow> bool" where
  "f64_less x y =
     (case x of
        Fin a \<Rightarrow> (case y of Fin b \<Rightarrow> a < b | PInf \<Rightarrow> True | NInf \<Rightarrow> False | NaN \<Rightarrow> False)
      | PInf \<Rightarrow> False
      | NInf \<Rightarrow> (case y of Fin b \<Rightarrow> True | PInf \<Rightarrow> True | NInf \<Rightarrow> False | NaN \<Rightarrow> False)
      | NaN \<Rightarrow> False)"


text \<open>\<open>math.Abs\<close>, \<open>math.Max\<close> and \<open>math.Min\<close> (a NaN operand gives NaN, unless the other
  operand is the infinity that decides the result).\<close>

definition f64_Abs :: "float64 \<Rightarrow> float64" where
  "f64_Abs x = (case x of Fin a \<Rightarrow> Fin \<bar>a\<bar> | PInf \<Rightarrow> PInf | NInf \<Rightarrow> PInf | NaN \<Rightarrow> NaN)"

definition f64_Max :: "float64 \<Rightarrow> float64 \<Rightarrow> float64" where
  "f64_Max x y =
     (if x = PInf \<or> y = PInf then PInf
      else if x = NaN \<or> y = NaN then NaN
      else if f64_less y x then x else y)"

definition f64_Min :: "float64 \<Rightarrow> float64 \<Rightarrow> float64" where
  "f64_Min x y =
     (if x = NInf \<or> y = NInf then NInf
      else if x = NaN \<or> y = NaN then NaN
      else if f64_less x y then x else y)"





section \<open>Whole-image transforms of the pixmap and the graymap\<close>


definition PPM_Rotate90CW :: "PPM \<Rightarrow> PPM option" where
  "PPM_Rotate90CW ppm = do {
     rows \<leftarrow> make_slice (ppm_width ppm) [];
     newData \<leftarrow> for_range 0 (int (length rows)) (\<lambda>i d. do {
                  row \<leftarrow> make_slice (ppm_height ppm) zero_Pixel;
                  upd d i row }) rows;
     newData \<leftarrow> for_range 0 (ppm_height ppm) (\<lambda>i.
                  for_range 0 (ppm_width ppm) (\<lambda>j d. do {
                    p \<leftarrow> get2 (ppm_data ppm) i j;
                    set2 d j (ppm_height ppm - 1 - i) p })) newData;
     Some (ppm\<lparr>ppm_width := ppm_height ppm, ppm_height := ppm_width ppm, ppm_data := newData\<rparr>) }"



definition PGM_Rotate90CW :: "PGM \<Rightarrow> PGM option" where
  "PGM_Rotate90CW pgm = do {
     rows \<leftarrow> make_slice (pgm_width pgm) [];
     rotatedData \<leftarrow> for_range 0 (pgm_width pgm) (\<lambda>i d. do {
                      row \<leftarrow> make_slice (pgm_height pgm) 0;
                      upd d i row }) rows;
     rotatedData \<leftarrow> for_range 0 (pgm_width pgm) (\<lambda>i.
                      for_range 0 (pgm_height pgm) (\<lambda>j d. do {
                        v \<leftarrow> get2 (pgm_data pgm) (pgm_height pgm - j - 1) i;
                        set2 d i j v })) rotatedData;
     Some (pgm\<lparr>pgm_data := rotatedData, pgm_width := pgm_height pgm, pgm_height := pgm_width pgm\<rparr>) }"



section \<open>Well-formed grids; the rotated and the half-turned grid\<close>

definition wf_PPM :: "PPM \<Rightarrow> bool" where
  "wf_PPM ppm \<longleftrightarrow> rect (ppm_data ppm) (ppm_width ppm) (ppm_height ppm)"

definition wf_PGM :: "PGM \<Rightarrow> bool" where
  "wf_PGM pgm \<longleftrightarrow> rect (pgm_data pgm) (pgm_width pgm) (pgm_height pgm)"


definition PGM_At :: "PGM \<Rightarrow> int \<Rightarrow> int \<Rightarrow> uint8 option" where
  "PGM_At pgm x y = get2 (pgm_data pgm) y x"


text \<open>
  The grid turned by 90 degrees clockwise: \<open>w\<close> rows of \<open>h\<close> samples, row \<open>r\<close> reading column
  \<open>r\<close> of the source from the bottom up. \<open>flipped\<close> is the source turned by 180 degrees.
\<close>

definition rotated :: "'a list list \<Rightarrow> int \<Rightarrow> int \<Rightarrow> 'a list list" where
  "rotated src w h = map (\<lambda>r. map (\<lambda>c. src ! (nat h - 1 - c) ! r) [0..<nat h]) [0..<nat w]"

definition flipped :: "'a list list \<Rightarrow> int \<Rightarrow> int \<Rightarrow> 'a list list" where
  "flipped src w h = map (\<lambda>r. map (\<lambda>c. src ! (nat h - 1 - r) ! (nat w - 1 - c)) [0..<nat w]) [0..<nat h]"

section \<open>The luminosity formula in exact arithmetic; more sample images\<close>





section \<open>Loops as lists of writes\<close>

lemma ofold_append:
  "ofold body (xs @ ys) s = (case ofold body xs s of None \<Rightarrow> None | Some s' \<Rightarrow> ofold body ys s')"
  by (induction xs arbitrary: s) (auto split: option.splits)

lemma ofold_filter:
  "ofold (\<lambda>i s. if P i then f i s else Some s) xs s = ofold f (filter P xs) s"
  by (induction xs arbitrary: s) (auto split: option.splits)

lemma ofold_nested:
  "ofold (\<lambda>i. ofold (f i) (js i)) xs s
     = ofold (\<lambda>(i, j). f i j) (concat (map (\<lambda>i. map (Pair i) (js i)) xs)) s"
proof (induction xs arbitrary: s)
  case Nil
  show ?case by simp
next
  case (Cons i xs)
  have inner: "ofold (\<lambda>(i, j). f i j) (map (Pair i) ys) t = ofold (f i) ys t" for ys t
    by (induction ys arbitrary: t) (auto split: option.splits)
  show ?case
    by (simp add: ofold_append inner Cons.IH split: option.splits)
qed

lemma ofold_map: "ofold f (map g xs) s = ofold (\<lambda>i. f (g i)) xs s"
  by (induction xs arbitrary: s) (auto split: option.splits)

lemma idx_Some_iff: "idx xs i = Some v \<longleftrightarrow> 0 \<le> i \<and> i < int (length xs) \<and> v = xs ! nat i"
  by (auto simp: idx_def)

lemma idx_None_iff: "idx xs i = None \<longleftrightarrow> \<not> (0 \<le> i \<and> i < int (length xs))"
  by (auto simp: idx_def)

lemma get2_set2:
  assumes "set2 d y x v = Some d'"
  shows "get2 d' y' x' = (if y' = y \<and> x' = x then Some v else get2 d y' x')"
  using assms
  by (auto simp: set2_def get2_def idx_def upd_def nth_list_update split: option.splits if_splits)

lemma set2_None_iff: "set2 d y x v = None \<longleftrightarrow> get2 d y x = None"
  by (auto simp: set2_def get2_def idx_def upd_def split: option.splits if_splits)

lemma PPM_Set_None_iff: "PPM_Set p x y v = None \<longleftrightarrow> PPM_At p x y = None"
  using set2_None_iff[of "ppm_data p" y x v]
  by (cases "set2 (ppm_data p) y x v") (auto simp: PPM_Set_def PPM_At_def)

lemma PPM_At_Set:
  assumes "PPM_Set p x y v = Some p'"
  shows "PPM_At p' x' y' = (if x' = x \<and> y' = y then Some v else PPM_At p x' y')"
    and "p' = p\<lparr>ppm_data := ppm_data p'\<rparr>"
  using assms get2_set2[of "ppm_data p" y x v]
  by (auto simp: PPM_Set_def PPM_At_def split: option.splits)

lemma set_all_Some:
  assumes "\<forall>(x, y) \<in> set pts. PPM_At p x y \<noteq> None"
  shows "\<exists>p'. set_all p pts c = Some p' \<and> p' = p\<lparr>ppm_data := ppm_data p'\<rparr>
           \<and> (\<forall>x y. PPM_At p' x y = (if (x, y) \<in> set pts then Some c else PPM_At p x y))"
  using assms
proof (induction pts arbitrary: p)
  case Nil
  then show ?case by (simp add: set_all_def)
next
  case (Cons a pts)
  obtain x y where a: "a = (x, y)" by (cases a)
  from Cons.prems a have "PPM_At p x y \<noteq> None" by simp
  then obtain p1 where p1: "PPM_Set p x y c = Some p1"
    using PPM_Set_None_iff[of p x y c] by (cases "PPM_Set p x y c") auto
  note at1 = PPM_At_Set[OF p1]
  have "\<forall>(x, y) \<in> set pts. PPM_At p1 x y \<noteq> None"
    using Cons.prems by (auto simp: at1(1))
  from Cons.IH[OF this] obtain p' where p': "set_all p1 pts c = Some p'"
    "p' = p1\<lparr>ppm_data := ppm_data p'\<rparr>"
    "\<forall>x y. PPM_At p' x y = (if (x, y) \<in> set pts then Some c else PPM_At p1 x y)"
    by blast
  have "set_all p (a # pts) c = Some p'"
    using p1 p'(1) by (simp add: set_all_def a)
  moreover have "p' = p\<lparr>ppm_data := ppm_data p'\<rparr>"
    using p'(2) at1(2) by (metis PPM.update_convs(1) PPM.surjective)
  moreover have "\<forall>x y. PPM_At p' x y = (if (x, y) \<in> set (a # pts) then Some c else PPM_At p x y)"
    using p'(3) by (auto simp: at1(1) a)
  ultimately show ?case by blast
qed

lemma set_all_None:
  assumes "\<exists>(x, y) \<in> set pts. PPM_At p x y = None"
  shows "set_all p pts c = None"
  using assms
proof (induction pts arbitrary: p)
  case Nil
  then show ?case by simp
next
  case (Cons a pts)
  obtain x y where a: "a = (x, y)" by (cases a)
  show ?case
  proof (cases "PPM_Set p x y c")
    case None
    then show ?thesis by (simp add: set_all_def a)
  next
    case (Some p1)
    note at1 = PPM_At_Set[OF Some]
    have "PPM_At p x y \<noteq> None" using Some PPM_Set_None_iff[of p x y c] by auto
    with Cons.prems a obtain u w where uw: "(u, w) \<in> set pts" "PPM_At p u w = None" by auto
    with \<open>PPM_At p x y \<noteq> None\<close> have "\<not> (u = x \<and> w = y)" by auto
    then have "PPM_At p1 u w = None" using uw(2) by (simp add: at1(1))
    with uw(1) have "\<exists>(x, y) \<in> set pts. PPM_At p1 x y = None" by auto
    from Cons.IH[OF this] show ?thesis using Some by (simp add: set_all_def a)
  qed
qed

lemma ofold_cond_pairs:
  "ofold (\<lambda>(x, y) s. if P x y then f x y s else Some s) xs s
     = ofold (\<lambda>(x, y). f x y) (filter (\<lambda>(x, y). P x y) xs) s"
  by (induction xs arbitrary: s) (auto split: option.splits)

lemma set_circle_points:
  "(x, y) \<in> set (circle_points c r) \<longleftrightarrow> in_disc r (x - X c) (y - Y c)"
proof
  assume "(x, y) \<in> set (circle_points c r)"
  then show "in_disc r (x - X c) (y - Y c)"
    unfolding circle_points_def in_disc_def by auto
next
  assume d: "in_disc r (x - X c) (y - Y c)"
  have "(x - X c, y - Y c) \<in> set (filter (\<lambda>(x, y). x * x + y * y \<le> r * r)
          (concat (map (\<lambda>x. map (Pair x) [- r..r]) [- r..r])))"
    using d unfolding in_disc_def by (auto intro!: bexI[where x = "x - X c"])
  then have "(\<lambda>(a, b). (X c + a, Y c + b)) (x - X c, y - Y c) \<in> set (circle_points c r)"
    unfolding circle_points_def set_map by (rule imageI)
  then show "(x, y) \<in> set (circle_points c r)" by simp
qed

lemma if_then_holds: "(if c then a else b) \<Longrightarrow> c \<Longrightarrow> a"
  by simp

lemma if_else_holds: "(if c then a else b) \<Longrightarrow> \<not> c \<Longrightarrow> b"
  by simp

section \<open>Evaluating the floating-point model\<close>






section \<open>Loop invariants\<close>

lemma ofold_rule:
  assumes "P 0 s"
    and "\<And>k t. k < length xs \<Longrightarrow> P k t \<Longrightarrow> \<exists>t'. body (xs ! k) t = Some t' \<and> P (Suc k) t'"
  shows "\<exists>s'. ofold body xs s = Some s' \<and> P (length xs) s'"
  using assms
proof (induction xs arbitrary: s P)
  case Nil
  then show ?case by simp
next
  case (Cons x xs)
  from Cons.prems(2)[of 0 s] Cons.prems(1)
  obtain t where t: "body x s = Some t" "P (Suc 0) t" by auto
  have "\<exists>s'. ofold body xs t = Some s' \<and> (\<lambda>k. P (Suc k)) (length xs) s'"
  proof (rule Cons.IH[where P = "\<lambda>k. P (Suc k)"])
    show "P (Suc 0) t" by (rule t(2))
  next
    fix k u
    assume "k < length xs" "P (Suc k) u"
    with Cons.prems(2)[of "Suc k" u]
    show "\<exists>t'. body (xs ! k) u = Some t' \<and> P (Suc (Suc k)) t'" by simp
  qed
  with t(1) show ?case by simp
qed

lemma for_range_rule:
  assumes "lo \<le> hi" and "P lo s"
    and "\<And>i t. lo \<le> i \<Longrightarrow> i < hi \<Longrightarrow> P i t \<Longrightarrow> \<exists>t'. body i t = Some t' \<and> P (i + 1) t'"
  shows "\<exists>s'. for_range lo hi body s = Some s' \<and> P hi s'"
proof -
  have len: "length [lo..hi - 1] = nat (hi - lo)" by simp
  have "\<exists>s'. ofold body [lo..hi - 1] s = Some s' \<and> (\<lambda>k. P (lo + int k)) (length [lo..hi - 1]) s'"
  proof (rule ofold_rule[where P = "\<lambda>k. P (lo + int k)"])
    show "P (lo + int 0) s" using assms(2) by simp
  next
    fix k t
    assume k: "k < length [lo..hi - 1]" and p: "P (lo + int k) t"
    have nth: "[lo..hi - 1] ! k = lo + int k" using k by (simp add: nth_upto)
    have lt: "lo + int k < hi" using k by simp
    have suc: "lo + int (Suc k) = lo + int k + 1" by simp
    from assms(3)[of "lo + int k" t] lt p
    show "\<exists>t'. body ([lo..hi - 1] ! k) t = Some t' \<and> P (lo + int (Suc k)) t'"
      unfolding nth suc by simp
  qed
  then show ?thesis using assms(1) by (simp add: for_range_def len)
qed

lemma rect_get2:
  assumes "rect d w h" "0 \<le> y" "y < h" "0 \<le> x" "x < w"
  shows "get2 d y x = Some (d ! nat y ! nat x)"
  using assms by (auto simp: rect_def get2_def idx_def list_all_length)

lemma set2_Some:
  assumes "0 \<le> y" "y < int (length d)" "0 \<le> x" "x < int (length (d ! nat y))"
  shows "set2 d y x v = Some (d[nat y := (d ! nat y)[nat x := v]])"
  using assms by (simp add: set2_def idx_def upd_def)


lemma init_loop:
  assumes "0 \<le> n" "0 \<le> m"
  shows "for_range 0 n (\<lambda>i d. do { row \<leftarrow> make_slice m z; upd d i row }) (replicate (nat n) [])
           = Some (replicate (nat n) (replicate (nat m) z))"
proof -
  let ?body = "\<lambda>i d. do { row \<leftarrow> make_slice m z; upd d i row }"
  let ?P = "\<lambda>i d. length d = nat n \<and> (\<forall>k < nat i. d ! k = replicate (nat m) z)"
  have "\<exists>d'. for_range 0 n ?body (replicate (nat n) []) = Some d' \<and> ?P n d'"
  proof (rule for_range_rule[where P = ?P])
    show "0 \<le> n" by fact
    show "?P 0 (replicate (nat n) [])" by simp
  next
    fix i d
    assume i: "0 \<le> i" "i < n" and P: "?P i d"
    have "?body i d = Some (d[nat i := replicate (nat m) z])"
      using i P assms by (simp add: make_slice_def upd_def)
    moreover have "?P (i + 1) (d[nat i := replicate (nat m) z])"
      using i P by (auto simp: nth_list_update nat_add_distrib less_Suc_eq)
    ultimately show "\<exists>t'. ?body i d = Some t' \<and> ?P (i + 1) t'" by blast
  qed
  then obtain d' where d': "for_range 0 n ?body (replicate (nat n) []) = Some d'" "?P n d'" by blast
  have "d' = replicate (nat n) (replicate (nat m) z)"
    using d'(2) by (intro nth_equalityI) auto
  with d'(1) show ?thesis by simp
qed

lemma rotate_loop_PPM:
  assumes r: "rect src w h"
  shows "for_range 0 h (\<lambda>i. for_range 0 w (\<lambda>j d. do {
            p \<leftarrow> get2 src i j;
            set2 d j (h - 1 - i) p })) (replicate (nat w) (replicate (nat h) z))
         = Some (rotated src w h)"
proof -
  let ?step = "\<lambda>i j d. do { p \<leftarrow> get2 src i j; set2 d j (h - 1 - i) p }"
  let ?shape = "\<lambda>d. length d = nat w \<and> (\<forall>r < nat w. length (d ! r) = nat h)"
  let ?P = "\<lambda>i d. ?shape d \<and> (\<forall>r < nat w. \<forall>c < nat h. h - 1 - int c < i \<longrightarrow>
               d ! r ! c = src ! nat (h - 1 - int c) ! r)"
  from r have w0: "0 \<le> w" and h0: "0 \<le> h" by (auto simp: rect_def)
  have "\<exists>d'. for_range 0 h (\<lambda>i. for_range 0 w (?step i)) (replicate (nat w) (replicate (nat h) z)) = Some d' \<and> ?P h d'"
  proof (rule for_range_rule[where P = ?P])
    show "0 \<le> h" by (rule h0)
    show "?P 0 (replicate (nat w) (replicate (nat h) z))" by auto
  next
    fix i d
    assume i: "0 \<le> i" "i < h" and P: "?P i d"
    let ?Q = "\<lambda>j e. ?shape e \<and> (\<forall>r < nat w. \<forall>c < nat h.
                 (h - 1 - int c < i \<or> (h - 1 - int c = i \<and> int r < j)) \<longrightarrow>
                 e ! r ! c = src ! nat (h - 1 - int c) ! r)"
    have "\<exists>e. for_range 0 w (?step i) d = Some e \<and> ?Q w e"
    proof (rule for_range_rule[where P = ?Q])
      show "0 \<le> w" by (rule w0)
      show "?Q 0 d" using P by auto
    next
      fix j e
      assume j: "0 \<le> j" "j < w" and Q: "?Q j e"
      let ?v = "src ! nat i ! nat j"
      let ?e' = "e[nat j := (e ! nat j)[nat (h - 1 - i) := ?v]]"
      have g: "get2 src i j = Some ?v" using rect_get2[OF r i j] .
      have s: "set2 e j (h - 1 - i) ?v = Some ?e'"
        using Q i j by (intro set2_Some) auto
      have "?Q (j + 1) ?e'"
      proof (intro conjI allI impI)
        show "length ?e' = nat w" using Q by simp
      next
        fix r assume "r < nat w"
        then show "length (?e' ! r) = nat h" using Q j by (cases "r = nat j") simp_all
      next
        fix r c
        assume rc: "r < nat w" "c < nat h"
          and cond: "h - 1 - int c < i \<or> (h - 1 - int c = i \<and> int r < j + 1)"
        show "?e' ! r ! c = src ! nat (h - 1 - int c) ! r"
        proof (cases "r = nat j \<and> c = nat (h - 1 - i)")
          case True
          then have "nat (h - 1 - int c) = nat i" using i by auto
          with True show ?thesis using Q rc by (simp add: nth_list_update)
        next
          case False
          have old: "h - 1 - int c < i \<or> (h - 1 - int c = i \<and> int r < j)"
            using cond False i j by auto
          have "?e' ! r ! c = e ! r ! c"
          proof (cases "r = nat j")
            case True
            with False have "c \<noteq> nat (h - 1 - i)" by simp
            with True Q rc show ?thesis by simp
          next
            case False
            then show ?thesis by simp
          qed
          with old Q rc show ?thesis by auto
        qed
      qed
      then show "\<exists>e'. ?step i j e = Some e' \<and> ?Q (j + 1) e'" by (simp add: g s)
    qed
    then obtain e where e: "for_range 0 w (?step i) d = Some e" "?Q w e" by blast
    have "?P (i + 1) e"
    proof (intro conjI allI impI)
      show "length e = nat w" using e(2) by simp
    next
      fix r assume "r < nat w" then show "length (e ! r) = nat h" using e(2) by simp
    next
      fix r c
      assume rc: "r < nat w" "c < nat h" and lt: "h - 1 - int c < i + 1"
      then have "h - 1 - int c < i \<or> (h - 1 - int c = i \<and> int r < w)" by auto
      with e(2) rc show "e ! r ! c = src ! nat (h - 1 - int c) ! r" by blast
    qed
    with e(1) show "\<exists>t'. for_range 0 w (?step i) d = Some t' \<and> ?P (i + 1) t'" by blast
  qed
  then obtain d' where d': "for_range 0 h (\<lambda>i. for_range 0 w (?step i)) (replicate (nat w) (replicate (nat h) z)) = Some d'"
    "?P h d'" by blast
  have "d' = rotated src w h"
  proof (rule nth_equalityI)
    show "length d' = length (rotated src w h)" using d'(2) by (simp add: rotated_def)
  next
    fix r assume "r < length d'"
    then have rw: "r < nat w" using d'(2) by simp
    show "d' ! r = rotated src w h ! r"
    proof (rule nth_equalityI)
      show "length (d' ! r) = length (rotated src w h ! r)"
        using d'(2) rw by (simp add: rotated_def)
    next
      fix c assume "c < length (d' ! r)"
      then have ch: "c < nat h" using d'(2) rw by simp
      then have "h - 1 - int c < h" by simp
      with d'(2) rw ch have "d' ! r ! c = src ! nat (h - 1 - int c) ! r" by blast
      moreover have "nat (h - 1 - int c) = nat h - 1 - c" using ch by auto
      ultimately show "d' ! r ! c = rotated src w h ! r ! c"
        using rw ch by (simp add: rotated_def)
    qed
  qed
  with d'(1) show ?thesis by simp
qed

lemma rotate_loop_PGM:
  assumes r: "rect src w h"
  shows "for_range 0 w (\<lambda>i. for_range 0 h (\<lambda>j d. do {
            v \<leftarrow> get2 src (h - j - 1) i;
            set2 d i j v })) (replicate (nat w) (replicate (nat h) z))
         = Some (rotated src w h)"
proof -
  let ?step = "\<lambda>i j d. do { v \<leftarrow> get2 src (h - j - 1) i; set2 d i j v }"
  let ?shape = "\<lambda>d. length d = nat w \<and> (\<forall>r < nat w. length (d ! r) = nat h)"
  let ?P = "\<lambda>i d. ?shape d \<and> (\<forall>r < nat i. \<forall>c < nat h. d ! r ! c = src ! (nat h - 1 - c) ! r)"
  from r have w0: "0 \<le> w" and h0: "0 \<le> h" by (auto simp: rect_def)
  have "\<exists>d'. for_range 0 w (\<lambda>i. for_range 0 h (?step i)) (replicate (nat w) (replicate (nat h) z)) = Some d' \<and> ?P w d'"
  proof (rule for_range_rule[where P = ?P])
    show "0 \<le> w" by (rule w0)
    show "?P 0 (replicate (nat w) (replicate (nat h) z))" by auto
  next
    fix i d
    assume i: "0 \<le> i" "i < w" and P: "?P i d"
    let ?Q = "\<lambda>j e. ?shape e \<and> (\<forall>r < nat i. \<forall>c < nat h. e ! r ! c = src ! (nat h - 1 - c) ! r)
                 \<and> (\<forall>c < nat j. e ! nat i ! c = src ! (nat h - 1 - c) ! nat i)"
    have "\<exists>e. for_range 0 h (?step i) d = Some e \<and> ?Q h e"
    proof (rule for_range_rule[where P = ?Q])
      show "0 \<le> h" by (rule h0)
      show "?Q 0 d" using P by auto
    next
      fix j e
      assume j: "0 \<le> j" "j < h" and Q: "?Q j e"
      let ?v = "src ! nat (h - j - 1) ! nat i"
      let ?e' = "e[nat i := (e ! nat i)[nat j := ?v]]"
      have g: "get2 src (h - j - 1) i = Some ?v"
        using j i by (intro rect_get2[OF r]) auto
      have s: "set2 e i j ?v = Some ?e'"
        using Q i j by (intro set2_Some) auto
      have idx: "nat (h - j - 1) = nat h - 1 - nat j" using j by auto
      have "?Q (j + 1) ?e'"
      proof (intro conjI allI impI)
        show "length ?e' = nat w" using Q by simp
      next
        fix r assume "r < nat w"
        then show "length (?e' ! r) = nat h" using Q i by (cases "r = nat i") simp_all
      next
        fix r c assume "r < nat i" "c < nat h"
        then show "?e' ! r ! c = src ! (nat h - 1 - c) ! r" using Q by simp
      next
        fix c assume c: "c < nat (j + 1)"
        show "?e' ! nat i ! c = src ! (nat h - 1 - c) ! nat i"
        proof (cases "c = nat j")
          case True
          then show ?thesis using Q i j by (simp add: idx)
        next
          case False
          with c j have "c < nat j" by auto
          with False Q i show ?thesis by simp
        qed
      qed
      then show "\<exists>e'. ?step i j e = Some e' \<and> ?Q (j + 1) e'" by (simp add: g s)
    qed
    then obtain e where e: "for_range 0 h (?step i) d = Some e" "?Q h e" by blast
    have "?P (i + 1) e"
    proof (intro conjI allI impI)
      show "length e = nat w" using e(2) by simp
    next
      fix r assume "r < nat w" then show "length (e ! r) = nat h" using e(2) by simp
    next
      fix r c
      assume rc: "r < nat (i + 1)" "c < nat h"
      show "e ! r ! c = src ! (nat h - 1 - c) ! r"
      proof (cases "r = nat i")
        case True
        with e(2) rc show ?thesis by simp
      next
        case False
        with rc i have "r < nat i" by auto
        with e(2) rc show ?thesis by simp
      qed
    qed
    with e(1) show "\<exists>t'. for_range 0 h (?step i) d = Some t' \<and> ?P (i + 1) t'" by blast
  qed
  then obtain d' where d': "for_range 0 w (\<lambda>i. for_range 0 h (?step i)) (replicate (nat w) (replicate (nat h) z)) = Some d'"
    "?P w d'" by blast
  have "d' = rotated src w h"
  proof (rule nth_equalityI)
    show "length d' = length (rotated src w h)" using d'(2) by (simp add: rotated_def)
  next
    fix r assume "r < length d'"
    then have rw: "r < nat w" using d'(2) by simp
    show "d' ! r = rotated src w h ! r"
      using d'(2) rw by (intro nth_equalityI) (simp_all add: rotated_def)
  qed
  with d'(1) show ?thesis by simp
qed

lemma rect_rotated: "0 \<le> w \<Longrightarrow> 0 \<le> h \<Longrightarrow> rect (rotated src w h) h w"
  by (simp add: rect_def rotated_def list_all_length)

lemma rect_flipped: "0 \<le> w \<Longrightarrow> 0 \<le> h \<Longrightarrow> rect (flipped src w h) w h"
  by (simp add: rect_def flipped_def list_all_length)

lemma rotated_rotated: "rotated (rotated src w h) h w = flipped src w h"
  unfolding rotated_def flipped_def
  by (intro nth_equalityI) (simp_all)

lemma flipped_flipped:
  assumes "rect src w h"
  shows "flipped (flipped src w h) w h = src"
proof (rule nth_equalityI)
  show "length (flipped (flipped src w h) w h) = length src"
    using assms by (auto simp: flipped_def rect_def)
next
  fix r assume "r < length (flipped (flipped src w h) w h)"
  then have r: "r < nat h" by (simp add: flipped_def)
  have lr: "length (src ! r) = nat w" using assms r by (auto simp: rect_def list_all_length)
  show "flipped (flipped src w h) w h ! r = src ! r"
  proof (rule nth_equalityI)
    show "length (flipped (flipped src w h) w h ! r) = length (src ! r)"
      using r lr by (simp add: flipped_def)
  next
    fix c assume "c < length (flipped (flipped src w h) w h ! r)"
    then have c: "c < nat w" using r by (simp add: flipped_def)
    have "nat h - 1 - (nat h - 1 - r) = r" "nat w - 1 - (nat w - 1 - c) = c"
      using r c by auto
    then show "flipped (flipped src w h) w h ! r ! c = src ! r ! c"
      using r c by (simp add: flipped_def)
  qed
qed

lemma rotated_four:
  assumes "rect src w h"
  shows "rotated (rotated (rotated (rotated src w h) h w) w h) h w = src"
  using assms by (simp add: rotated_rotated flipped_flipped)

section \<open>Rotation of well-formed grids\<close>

lemma PPM_Rotate90CW_wf:
  assumes "wf_PPM ppm"
  shows "PPM_Rotate90CW ppm = Some (ppm\<lparr>ppm_width := ppm_height ppm, ppm_height := ppm_width ppm,
           ppm_data := rotated (ppm_data ppm) (ppm_width ppm) (ppm_height ppm)\<rparr>)"
proof -
  from assms have r: "rect (ppm_data ppm) (ppm_width ppm) (ppm_height ppm)"
    and w0: "0 \<le> ppm_width ppm" and h0: "0 \<le> ppm_height ppm"
    by (auto simp: wf_PPM_def rect_def)
  have m: "make_slice (ppm_width ppm) ([] :: Pixel list) = Some (replicate (nat (ppm_width ppm)) [])"
    using w0 by (simp add: make_slice_def)
  have len: "int (length (replicate (nat (ppm_width ppm)) ([] :: Pixel list))) = ppm_width ppm"
    using w0 by simp
  show ?thesis
    unfolding PPM_Rotate90CW_def m Option.bind.simps len init_loop[OF w0 h0]
      rotate_loop_PPM[OF r] ..
qed

lemma PGM_Rotate90CW_wf:
  assumes "wf_PGM pgm"
  shows "PGM_Rotate90CW pgm = Some (pgm\<lparr>pgm_data := rotated (pgm_data pgm) (pgm_width pgm) (pgm_height pgm),
           pgm_width := pgm_height pgm, pgm_height := pgm_width pgm\<rparr>)"
proof -
  from assms have r: "rect (pgm_data pgm) (pgm_width pgm) (pgm_height pgm)"
    and w0: "0 \<le> pgm_width pgm" and h0: "0 \<le> pgm_height pgm"
    by (auto simp: wf_PGM_def rect_def)
  have m: "make_slice (pgm_width pgm) ([] :: uint8 list) = Some (replicate (nat (pgm_width pgm)) [])"
    using w0 by (simp add: make_slice_def)
  show ?thesis
    unfolding PGM_Rotate90CW_def m Option.bind.simps init_loop[OF w0 h0]
      rotate_loop_PGM[OF r] ..
qed

lemma get2_rotated:
  assumes "rect d w h" "0 \<le> x" "x < w" "0 \<le> y" "y < h"
  shows "get2 (rotated d w h) x (h - 1 - y) = get2 d y x"
proof -
  have "nat h - 1 - nat (h - 1 - y) = nat y" using assms by auto
  then have "get2 (rotated d w h) x (h - 1 - y) = Some (d ! nat y ! nat x)"
    using assms by (simp add: get2_def idx_def rotated_def)
  then show ?thesis using rect_get2[OF assms(1) assms(4,5) assms(2,3)] by simp
qed

section \<open>64-bit arithmetic and the circle loops\<close>

lemma wrap64_id: "int64 n \<Longrightarrow> wrap64 n = n"
  by (simp add: int64_def wrap64_def)

lemma wrap64_over: "2 ^ 63 \<le> n \<Longrightarrow> n < 2 ^ 63 + 2 ^ 63 \<Longrightarrow> wrap64 n = n - 2 ^ 64"
proof -
  assume a: "2 ^ 63 \<le> n" "n < 2 ^ 63 + 2 ^ 63"
  have "(n + 2 ^ 63) mod 2 ^ 64 = (n + 2 ^ 63 - 2 ^ 64) mod 2 ^ 64"
    by (metis mod_diff_right_eq mod_self diff_zero)
  also have "\<dots> = n + 2 ^ 63 - 2 ^ 64" using a by (intro mod_pos_pos_trivial) auto
  finally show ?thesis by (simp add: wrap64_def)
qed

lemma wrap64_under: "n < - (2 ^ 63) \<Longrightarrow> - (2 ^ 63) - 2 ^ 63 \<le> n \<Longrightarrow> wrap64 n = n + 2 ^ 64"
proof -
  assume a: "n < - (2 ^ 63)" "- (2 ^ 63) - 2 ^ 63 \<le> n"
  have "(n + 2 ^ 63 + 2 ^ 64) mod 2 ^ 64 = (n + 2 ^ 63) mod (2 ^ 64 :: int)"
    by (rule mod_add_self2)
  then have "(n + 2 ^ 63) mod 2 ^ 64 = (n + 2 ^ 63 + 2 ^ 64) mod 2 ^ 64"
    by (rule sym)
  also have "\<dots> = n + 2 ^ 63 + 2 ^ 64" using a by (intro mod_pos_pos_trivial) auto
  finally show ?thesis by (simp add: wrap64_def)
qed

lemma wrap64_out_of_range:
  assumes "int64 a" "\<bar>d\<bar> < 2 ^ 31" "n < 2 ^ 62" "\<not> (0 \<le> a + d \<and> a + d < n)"
  shows "\<not> (0 \<le> wrap64 (a + d) \<and> wrap64 (a + d) < n)"
proof (cases "int64 (a + d)")
  case True
  then show ?thesis using assms(4) by (simp add: wrap64_id)
next
  case False
  then consider "2 ^ 63 \<le> a + d" | "a + d < - (2 ^ 63)" by (auto simp: int64_def)
  then show ?thesis
  proof cases
    case 1
    have "a + d < 2 ^ 63 + 2 ^ 63" using assms(1,2) by (auto simp: int64_def)
    from wrap64_over[OF 1 this] assms(1,2) show ?thesis by (auto simp: int64_def)
  next
    case 2
    have "- (2 ^ 63) - 2 ^ 63 \<le> a + d" using assms(1,2) by (auto simp: int64_def)
    from wrap64_under[OF 2 this] assms(1,2,3) show ?thesis by (auto simp: int64_def)
  qed
qed

lemma for_le_ofold:
  assumes "int64 lo" "hi < 2 ^ 63 - 1"
    and "\<And>i t. lo \<le> i \<Longrightarrow> i \<le> hi \<Longrightarrow> body i t = Some (b i t)"
  shows "for_le lo hi body s = Some (ofold b [lo..hi] s)"
  using assms(1,3)
proof (induction "nat (hi + 1 - lo)" arbitrary: lo s)
  case 0
  then have "\<not> lo \<le> hi" by simp
  then show ?case by (subst for_le.simps) simp
next
  case (Suc n)
  then have le: "lo \<le> hi" by simp
  have up: "[lo..hi] = lo # [lo + 1..hi]" using le by (simp add: upto_rec1)
  have w: "wrap64 (lo + 1) = lo + 1"
    using Suc.prems(1) le assms(2) by (intro wrap64_id) (auto simp: int64_def)
  have b: "body lo s = Some (b lo s)" using Suc.prems(2)[of lo s] le by simp
  show ?case
  proof (cases "b lo s")
    case None
    then show ?thesis by (subst for_le.simps) (simp add: le b up)
  next
    case (Some s')
    have "for_le (lo + 1) hi body s' = Some (ofold b [lo + 1..hi] s')"
    proof (rule Suc.hyps(1))
      show "n = nat (hi + 1 - (lo + 1))" using Suc.hyps(2) by simp
      show "int64 (lo + 1)" using Suc.prems(1) le assms(2) by (auto simp: int64_def)
      show "\<And>i t. lo + 1 \<le> i \<Longrightarrow> i \<le> hi \<Longrightarrow> body i t = Some (b i t)"
        using Suc.prems(2) by simp
    qed
    then show ?thesis by (subst for_le.simps) (simp add: le b up Some w)
  qed
qed

lemma square_bound: "\<bar>x\<bar> < 2 ^ 31 \<Longrightarrow> x * x < (2 ^ 62 :: int)"
proof -
  assume a: "\<bar>x\<bar> < 2 ^ 31"
  have "x * x = \<bar>x\<bar> * \<bar>x\<bar>" by simp
  also have "\<dots> \<le> (2 ^ 31 - 1) * (2 ^ 31 - 1)" using a by (intro mult_mono) auto
  also have "\<dots> < (2 ^ 62 :: int)" by simp
  finally show ?thesis .
qed

lemma ofold_cong:
  "(\<And>i t. i \<in> set xs \<Longrightarrow> f i t = g i t) \<Longrightarrow> ofold f xs s = ofold g xs s"
  by (induction xs arbitrary: s) (auto split: option.splits)

lemma int64_small: "0 \<le> n \<Longrightarrow> n < 2 ^ 62 \<Longrightarrow> int64 n"
  by (simp add: int64_def)

lemma int64_small_sum: "0 \<le> a \<Longrightarrow> a < 2 ^ 62 \<Longrightarrow> 0 \<le> b \<Longrightarrow> b < 2 ^ 62 \<Longrightarrow> int64 (a + b)"
  by (simp add: int64_def)

lemma DrawCircle_set_all:
  assumes "- (2 ^ 63) < radius" "radius < 2 ^ 31"
  shows "DrawCircle p c radius col = Some (set_all p (circle_writes c radius) col)"
proof -
  let ?r = radius
  have wr: "wrap64 (- ?r) = - ?r" using assms by (intro wrap64_id) (simp add: int64_def)
  have i64: "int64 (- ?r)" using assms by (simp add: int64_def)
  have hi: "?r < 2 ^ 63 - 1" using assms by simp
  let ?cond = "\<lambda>x y. wrap64 (wrap64 (x * x) + wrap64 (y * y)) \<le> wrap64 (?r * ?r)"
  let ?in = "\<lambda>x y q. if ?cond x y then PPM_Set q (wrap64 (X c + x)) (wrap64 (Y c + y)) col else Some q"
  have inner: "for_le (- ?r) ?r (\<lambda>y q. Some (?in x y q)) q = Some (ofold (?in x) [- ?r..?r] q)" for x q
    by (rule for_le_ofold[OF i64 hi]) simp
  have outer: "for_le (- ?r) ?r (\<lambda>x. for_le (- ?r) ?r (\<lambda>y q. Some (?in x y q))) p
        = Some (ofold (\<lambda>x. ofold (?in x) [- ?r..?r]) [- ?r..?r] p)"
    by (rule for_le_ofold[OF i64 hi]) (simp add: inner)
  have cond: "?cond x y \<longleftrightarrow> x * x + y * y \<le> ?r * ?r"
    if "- ?r \<le> x" "x \<le> ?r" "- ?r \<le> y" "y \<le> ?r" for x y
  proof -
    from that assms have b: "\<bar>x\<bar> < 2 ^ 31" "\<bar>y\<bar> < 2 ^ 31" "\<bar>?r\<bar> < 2 ^ 31" by auto
    have sq: "int64 (z * z)" "z * z < 2 ^ 62" "0 \<le> z * z" if "\<bar>z\<bar> < 2 ^ 31" for z :: int
    proof -
      show lt: "z * z < 2 ^ 62" by (rule square_bound[OF that])
      show nn: "0 \<le> z * z" by simp
      show "int64 (z * z)" by (rule int64_small[OF nn lt])
    qed
    have "int64 (x * x + y * y)"
      by (rule int64_small_sum[OF sq(3)[OF b(1)] sq(2)[OF b(1)] sq(3)[OF b(2)] sq(2)[OF b(2)]])
    then have "wrap64 (x * x + y * y) = x * x + y * y" by (rule wrap64_id)
    then show ?thesis
      by (simp add: wrap64_id[OF sq(1)[OF b(1)]] wrap64_id[OF sq(1)[OF b(2)]] wrap64_id[OF sq(1)[OF b(3)]])
  qed
  have "ofold (\<lambda>x. ofold (?in x) [- ?r..?r]) [- ?r..?r] p
      = ofold (\<lambda>(x, y). ?in x y) (concat (map (\<lambda>x. map (Pair x) [- ?r..?r]) [- ?r..?r])) p"
    by (rule ofold_nested)
  also have "\<dots> = ofold (\<lambda>(x, y) q. if x * x + y * y \<le> ?r * ?r
                 then PPM_Set q (wrap64 (X c + x)) (wrap64 (Y c + y)) col else Some q)
              (concat (map (\<lambda>x. map (Pair x) [- ?r..?r]) [- ?r..?r])) p"
    by (rule ofold_cong) (auto simp: cond)
  also have "\<dots> = ofold (\<lambda>(x, y) q. PPM_Set q (wrap64 (X c + x)) (wrap64 (Y c + y)) col)
          (filter (\<lambda>(x, y). x * x + y * y \<le> ?r * ?r)
          (concat (map (\<lambda>x. map (Pair x) [- ?r..?r]) [- ?r..?r]))) p"
    by (rule ofold_cond_pairs)
  also have "\<dots> = set_all p (circle_writes c ?r) col"
    unfolding set_all_def circle_writes_def ofold_map
    by (rule arg_cong[where f = "\<lambda>f. ofold f _ p"]) (auto simp: fun_eq_iff)
  finally show ?thesis
    unfolding DrawCircle_def wr outer by simp
qed

lemma PPM_At_None_iff:
  "PPM_At p x y = None \<longleftrightarrow>
     \<not> (0 \<le> y \<and> y < int (length (ppm_data p)) \<and> 0 \<le> x \<and> x < int (length (ppm_data p ! nat y)))"
  by (auto simp: PPM_At_def get2_def idx_def)

lemma circle_writes_in_range:
  assumes "radius < 2 ^ 31" "go_sized (ppm_data p)"
    and "\<forall>dx dy. in_disc radius dx dy \<longrightarrow> PPM_At p (X c + dx) (Y c + dy) \<noteq> None"
  shows "circle_writes c radius = circle_points c radius"
  unfolding circle_writes_def circle_points_def
proof (rule map_cong[OF refl])
  fix xy
  assume m: "xy \<in> set (filter (\<lambda>(x, y). x * x + y * y \<le> radius * radius)
          (concat (map (\<lambda>x. map (Pair x) [- radius..radius]) [- radius..radius])))"
  obtain x y where xy: "xy = (x, y)" by (cases xy)
  from m xy have "in_disc radius x y" by (auto simp: in_disc_def)
  with assms(3) have "PPM_At p (X c + x) (Y c + y) \<noteq> None" by blast
  then have r: "0 \<le> Y c + y" "Y c + y < int (length (ppm_data p))" "0 \<le> X c + x"
    "X c + x < int (length (ppm_data p ! nat (Y c + y)))"
    by (auto simp: PPM_At_None_iff)
  from assms(2) r(1,2) have "int (length (ppm_data p)) < 2 ^ 62"
    "int (length (ppm_data p ! nat (Y c + y))) < 2 ^ 62"
    by (auto simp: go_sized_def list_all_length)
  with r have "int64 (X c + x)" "int64 (Y c + y)" by (auto simp: int64_def)
  then show "(case xy of (x, y) \<Rightarrow> (wrap64 (X c + x), wrap64 (Y c + y)))
             = (case xy of (x, y) \<Rightarrow> (X c + x, Y c + y))"
    by (simp add: xy wrap64_id)
qed

lemma circle_writes_out_of_range:
  assumes "radius < 2 ^ 31" "go_sized (ppm_data p)" "int64 (X c)" "int64 (Y c)"
    and "in_disc radius dx dy" "PPM_At p (X c + dx) (Y c + dy) = None"
  shows "\<exists>(x, y) \<in> set (circle_writes c radius). PPM_At p x y = None"
proof -
  from assms(1,5) have b: "\<bar>dx\<bar> < 2 ^ 31" "\<bar>dy\<bar> < 2 ^ 31" by (auto simp: in_disc_def)
  have mem: "(wrap64 (X c + dx), wrap64 (Y c + dy)) \<in> set (circle_writes c radius)"
  proof -
    have "(dx, dy) \<in> set (filter (\<lambda>(x, y). x * x + y * y \<le> radius * radius)
          (concat (map (\<lambda>x. map (Pair x) [- radius..radius]) [- radius..radius])))"
      using assms(5) unfolding in_disc_def by (auto intro!: bexI[where x = dx])
    then have "(\<lambda>(x, y). (wrap64 (X c + x), wrap64 (Y c + y))) (dx, dy) \<in> set (circle_writes c radius)"
      unfolding circle_writes_def set_map by (rule imageI)
    then show ?thesis by simp
  qed
  have len: "int (length (ppm_data p)) < 2 ^ 62" using assms(2) by (simp add: go_sized_def)
  have "PPM_At p (wrap64 (X c + dx)) (wrap64 (Y c + dy)) = None"
  proof (cases "0 \<le> Y c + dy \<and> Y c + dy < int (length (ppm_data p))")
    case False
    from wrap64_out_of_range[OF assms(4) b(2) len False]
    show ?thesis by (auto simp: PPM_At_None_iff)
  next
    case True
    with len have "int64 (Y c + dy)" by (auto simp: int64_def)
    then have wy: "wrap64 (Y c + dy) = Y c + dy" by (rule wrap64_id)
    from True assms(2) have rl: "int (length (ppm_data p ! nat (Y c + dy))) < 2 ^ 62"
      by (auto simp: go_sized_def list_all_length)
    from True assms(6) have "\<not> (0 \<le> X c + dx \<and> X c + dx < int (length (ppm_data p ! nat (Y c + dy))))"
      by (auto simp: PPM_At_None_iff)
    from wrap64_out_of_range[OF assms(3) b(1) rl this]
    show ?thesis by (auto simp: PPM_At_None_iff wy)
  qed
  with mem show ?thesis by blast
qed

section \<open>The rounding error of the luminance\<close>


























section \<open>The depth conversions of well-formed grids\<close>







section \<open>Circle and filled circle\<close>

text \<open>
  Claim C9, as amended. \<open>DrawCircle\<close> and \<open>DrawFilledCircle\<close> give the same result on every
  grid, centre, radius and colour. For a radius above the least 64-bit integer and below
  \<open>2 ^ 31\<close> (so that no square wraps), a centre with 64-bit coordinates and a grid of Go's
  sizes: when every offset \<open>(dx, dy)\<close> of the bounding square of side \<open>2 * radius + 1\<close> with
  \<open>dx\<^sup>2 + dy\<^sup>2 \<le> radius\<^sup>2\<close> lands inside the grid, the operation returns the grid in which
  exactly those pixels hold the colour and every other pixel is unchanged; when one of them
  lands outside the grid, the operation stops with an index-out-of-range panic instead of
  skipping the pixel.
\<close>

theorem circle_filled_circle_identical:
  "DrawFilledCircle ppm center radius color = DrawCircle ppm center radius color \<and>
   (- (2 ^ 63) < radius \<and> radius < 2 ^ 31 \<and> int64 (X center) \<and> int64 (Y center) \<and>
    go_sized (ppm_data ppm) \<longrightarrow>
    (if \<forall>dx dy. in_disc radius dx dy \<longrightarrow> PPM_At ppm (X center + dx) (Y center + dy) \<noteq> None
     then \<exists>p'. DrawCircle ppm center radius color = Some (Some p') \<and>
            p' = ppm\<lparr>ppm_data := ppm_data p'\<rparr> \<and>
            (\<forall>x y. PPM_At p' x y =
               (if in_disc radius (x - X center) (y - Y center) then Some color else PPM_At ppm x y))
     else DrawCircle ppm center radius color = Some None))"
proof (intro conjI impI)
  show "DrawFilledCircle ppm center radius color = DrawCircle ppm center radius color"
    by (simp add: DrawFilledCircle_def DrawCircle_def)
next
  assume a: "- (2 ^ 63) < radius \<and> radius < 2 ^ 31 \<and> int64 (X center) \<and> int64 (Y center) \<and>
    go_sized (ppm_data ppm)"
  then have lo: "- (2 ^ 63) < radius" and hi: "radius < 2 ^ 31" and cx: "int64 (X center)"
    and cy: "int64 (Y center)" and gs: "go_sized (ppm_data ppm)" by simp_all
  note run = DrawCircle_set_all[OF lo hi, of ppm center color]
  show "if \<forall>dx dy. in_disc radius dx dy \<longrightarrow> PPM_At ppm (X center + dx) (Y center + dy) \<noteq> None
     then \<exists>p'. DrawCircle ppm center radius color = Some (Some p') \<and>
            p' = ppm\<lparr>ppm_data := ppm_data p'\<rparr> \<and>
            (\<forall>x y. PPM_At p' x y =
               (if in_disc radius (x - X center) (y - Y center) then Some color else PPM_At ppm x y))
     else DrawCircle ppm center radius color = Some None"
  proof (cases "\<forall>dx dy. in_disc radius dx dy \<longrightarrow> PPM_At ppm (X center + dx) (Y center + dy) \<noteq> None")
    case True
    have w: "circle_writes center radius = circle_points center radius"
      by (rule circle_writes_in_range[OF hi gs True])
    from True have "\<forall>(x, y) \<in> set (circle_points center radius). PPM_At ppm x y \<noteq> None"
      by (auto simp: set_circle_points) (metis add_diff_cancel_left' diff_add_cancel add.commute)
    from set_all_Some[OF this, of color] True show ?thesis
      by (simp add: run w set_circle_points)
  next
    case False
    then obtain dx dy where "in_disc radius dx dy" "PPM_At ppm (X center + dx) (Y center + dy) = None"
      by auto
    from circle_writes_out_of_range[OF hi gs cx cy this]
    have "set_all ppm (circle_writes center radius) color = None" by (rule set_all_None)
    with False show ?thesis by (simp add: run)
  qed
qed

text \<open>The theorem at a 3 by 3 grid: radius 1 around the middle, and around a point on the edge.\<close>

theorem circle_filled_circle_identical_witness:
  "DrawFilledCircle g3 \<lparr>X = 1, Y = 1\<rparr> 1 red = DrawCircle g3 \<lparr>X = 1, Y = 1\<rparr> 1 red \<and>
   (\<exists>p'. DrawCircle g3 \<lparr>X = 1, Y = 1\<rparr> 1 red = Some (Some p') \<and>
      PPM_At p' 1 0 = Some red \<and> PPM_At p' 0 0 = Some zero_Pixel) \<and>
   DrawFilledCircle g3 \<lparr>X = 0, Y = 1\<rparr> 1 red = Some None"
proof -
  have pre: "- (2 ^ 63) < (1::int) \<and> (1::int) < 2 ^ 31 \<and> int64 (X \<lparr>X = 1, Y = 1\<rparr>) \<and>
      int64 (Y \<lparr>X = 1, Y = 1\<rparr>) \<and> go_sized (ppm_data g3)"
    and pre': "- (2 ^ 63) < (1::int) \<and> (1::int) < 2 ^ 31 \<and> int64 (X \<lparr>X = 0, Y = 1\<rparr>) \<and>
      int64 (Y \<lparr>X = 0, Y = 1\<rparr>) \<and> go_sized (ppm_data g3)"
    by (simp_all add: int64_def go_sized_def g3_def list_all_iff)
  have inside: "\<forall>dx dy. in_disc 1 dx dy \<longrightarrow> PPM_At g3 (X \<lparr>X = 1, Y = 1\<rparr> + dx) (Y \<lparr>X = 1, Y = 1\<rparr> + dy) \<noteq> None"
    by (auto simp: in_disc_def PPM_At_def get2_def idx_def g3_def)
  have outside: "\<not> (\<forall>dx dy. in_disc 1 dx dy \<longrightarrow> PPM_At g3 (X \<lparr>X = 0, Y = 1\<rparr> + dx) (Y \<lparr>X = 0, Y = 1\<rparr> + dy) \<noteq> None)"
  proof -
    have "in_disc 1 (- 1) 0" by (simp add: in_disc_def)
    moreover have "PPM_At g3 (X \<lparr>X = 0, Y = 1\<rparr> + (- 1)) (Y \<lparr>X = 0, Y = 1\<rparr> + 0) = None"
      by (simp add: PPM_At_def get2_def idx_def g3_def)
    ultimately show ?thesis by blast
  qed
  have d1: "in_disc 1 (1 - 1) (0 - 1)" and d2: "\<not> in_disc 1 (0 - 1) (0 - 1)"
    by (simp_all add: in_disc_def)
  have z: "PPM_At g3 0 0 = Some zero_Pixel"
    by (simp add: PPM_At_def get2_def idx_def g3_def)
  note T1 = circle_filled_circle_identical[of g3 "\<lparr>X = 1, Y = 1\<rparr>" 1 red]
  note T2 = circle_filled_circle_identical[of g3 "\<lparr>X = 0, Y = 1\<rparr>" 1 red]
  from T1 have same: "DrawFilledCircle g3 \<lparr>X = 1, Y = 1\<rparr> 1 red = DrawCircle g3 \<lparr>X = 1, Y = 1\<rparr> 1 red"
    by (rule conjunct1)
  from T1[THEN conjunct2, rule_format, OF pre]
  have "\<exists>p'. DrawCircle g3 \<lparr>X = 1, Y = 1\<rparr> 1 red = Some (Some p') \<and> p' = g3\<lparr>ppm_data := ppm_data p'\<rparr> \<and>
           (\<forall>x y. PPM_At p' x y =
              (if in_disc 1 (x - X \<lparr>X = 1, Y = 1\<rparr>) (y - Y \<lparr>X = 1, Y = 1\<rparr>) then Some red else PPM_At g3 x y))"
    using inside by (rule if_then_holds)
  then obtain p' where p': "DrawCircle g3 \<lparr>X = 1, Y = 1\<rparr> 1 red = Some (Some p')"
    "\<forall>x y. PPM_At p' x y = (if in_disc 1 (x - X \<lparr>X = 1, Y = 1\<rparr>) (y - Y \<lparr>X = 1, Y = 1\<rparr>) then Some red else PPM_At g3 x y)"
    by blast
  have "PPM_At p' 1 0 = Some red" "PPM_At p' 0 0 = Some zero_Pixel"
    using p'(2) d1 d2 z by simp_all
  moreover have "DrawCircle g3 \<lparr>X = 0, Y = 1\<rparr> 1 red = Some None"
    using T2[THEN conjunct2, rule_format, OF pre'] outside by (rule if_else_holds)
  moreover from T2 have "DrawFilledCircle g3 \<lparr>X = 0, Y = 1\<rparr> 1 red = DrawCircle g3 \<lparr>X = 0, Y = 1\<rparr> 1 red"
    by (rule conjunct1)
  ultimately show ?thesis using same p'(1) by auto
qed

text \<open>
  The claim as it was worded (every centre and radius, the disc set exactly) fails where the
  disc leaves the grid: with the centre on the left edge of the 3 by 3 grid the offset
  \<open>(- 1, 0)\<close> belongs to the disc of radius 1, its pixel is outside the grid, and the operation
  ends in a panic without returning a grid.
\<close>

theorem circle_off_grid_counterexample:
  "in_disc 1 (- 1) 0 \<and>
   PPM_At g3 (X \<lparr>X = 0, Y = 1\<rparr> + (- 1)) (Y \<lparr>X = 0, Y = 1\<rparr> + 0) = None \<and>
   DrawCircle g3 \<lparr>X = 0, Y = 1\<rparr> 1 red = Some None"
proof -
  have d: "in_disc 1 (- 1) 0" by (simp add: in_disc_def)
  have n: "PPM_At g3 (X \<lparr>X = 0, Y = 1\<rparr> + (- 1)) (Y \<lparr>X = 0, Y = 1\<rparr> + 0) = None"
    by (simp add: PPM_At_def get2_def idx_def g3_def)
  have "\<exists>(x, y) \<in> set (circle_writes \<lparr>X = 0, Y = 1\<rparr> 1). PPM_At g3 x y = None"
    by (rule circle_writes_out_of_range[OF _ _ _ _ d n]) (simp_all add: int64_def go_sized_def g3_def list_all_iff)
  then have "set_all g3 (circle_writes \<lparr>X = 0, Y = 1\<rparr> 1) red = None" by (rule set_all_None)
  moreover have "DrawCircle g3 \<lparr>X = 0, Y = 1\<rparr> 1 red = Some (set_all g3 (circle_writes \<lparr>X = 0, Y = 1\<rparr> 1) red)"
    by (rule DrawCircle_set_all) simp_all
  ultimately show ?thesis using d n by simp
qed

section \<open>Rotation by 90 degrees\<close>

text \<open>
  Claim C7. For every well-formed grid (pixmap and graymap), \<open>Rotate90CW\<close> returns a grid with
  width and height swapped in which the source cell \<open>(x, y)\<close> is found at \<open>(height - 1 - y, x)\<close>,
  and four rotations in a row return the original grid, dimensions and samples.
\<close>

theorem Rotate90CW_four_cycle:
  assumes "wf_PPM ppm" and "wf_PGM pgm"
  shows "(\<exists>p. PPM_Rotate90CW ppm = Some p \<and>
            ppm_width p = ppm_height ppm \<and> ppm_height p = ppm_width ppm \<and> wf_PPM p \<and>
            (\<forall>x y. 0 \<le> x \<and> x < ppm_width ppm \<and> 0 \<le> y \<and> y < ppm_height ppm \<longrightarrow>
               PPM_At p (ppm_height ppm - 1 - y) x = PPM_At ppm x y)) \<and>
         (PPM_Rotate90CW ppm \<bind> PPM_Rotate90CW \<bind> PPM_Rotate90CW \<bind> PPM_Rotate90CW) = Some ppm \<and>
         (\<exists>g. PGM_Rotate90CW pgm = Some g \<and>
            pgm_width g = pgm_height pgm \<and> pgm_height g = pgm_width pgm \<and> wf_PGM g \<and>
            (\<forall>x y. 0 \<le> x \<and> x < pgm_width pgm \<and> 0 \<le> y \<and> y < pgm_height pgm \<longrightarrow>
               PGM_At g (pgm_height pgm - 1 - y) x = PGM_At pgm x y)) \<and>
         (PGM_Rotate90CW pgm \<bind> PGM_Rotate90CW \<bind> PGM_Rotate90CW \<bind> PGM_Rotate90CW) = Some pgm"
proof -
  let ?w = "ppm_width ppm" and ?h = "ppm_height ppm" and ?d = "ppm_data ppm"
  from assms(1) have r: "rect ?d ?w ?h" and w0: "0 \<le> ?w" and h0: "0 \<le> ?h"
    by (auto simp: wf_PPM_def rect_def)
  let ?p1 = "ppm\<lparr>ppm_width := ?h, ppm_height := ?w, ppm_data := rotated ?d ?w ?h\<rparr>"
  let ?p2 = "ppm\<lparr>ppm_data := flipped ?d ?w ?h\<rparr>"
  let ?p3 = "ppm\<lparr>ppm_width := ?h, ppm_height := ?w, ppm_data := rotated (flipped ?d ?w ?h) ?w ?h\<rparr>"
  have wf1: "wf_PPM ?p1" using w0 h0 by (simp add: wf_PPM_def rect_rotated)
  have wf2: "wf_PPM ?p2" using w0 h0 by (simp add: wf_PPM_def rect_flipped)
  have wf3: "wf_PPM ?p3" using w0 h0 by (simp add: wf_PPM_def rect_rotated)
  have s1: "PPM_Rotate90CW ppm = Some ?p1" by (rule PPM_Rotate90CW_wf[OF assms(1)])
  have s2: "PPM_Rotate90CW ?p1 = Some ?p2"
    using PPM_Rotate90CW_wf[OF wf1] by (simp add: rotated_rotated)
  have s3: "PPM_Rotate90CW ?p2 = Some ?p3"
    using PPM_Rotate90CW_wf[OF wf2] by simp
  have s4: "PPM_Rotate90CW ?p3 = Some ppm"
    using PPM_Rotate90CW_wf[OF wf3] by (simp add: rotated_rotated flipped_flipped[OF r])
  have at: "\<forall>x y. 0 \<le> x \<and> x < ?w \<and> 0 \<le> y \<and> y < ?h \<longrightarrow> PPM_At ?p1 (?h - 1 - y) x = PPM_At ppm x y"
    using get2_rotated[OF r] by (simp add: PPM_At_def)
  have ppm_part: "\<exists>p. PPM_Rotate90CW ppm = Some p \<and>
            ppm_width p = ?h \<and> ppm_height p = ?w \<and> wf_PPM p \<and>
            (\<forall>x y. 0 \<le> x \<and> x < ?w \<and> 0 \<le> y \<and> y < ?h \<longrightarrow> PPM_At p (?h - 1 - y) x = PPM_At ppm x y)"
    using s1 wf1 at by (intro exI[of _ ?p1]) simp
  have ppm_four: "(PPM_Rotate90CW ppm \<bind> PPM_Rotate90CW \<bind> PPM_Rotate90CW \<bind> PPM_Rotate90CW) = Some ppm"
    by (simp add: s1 s2 s3 s4)
  let ?W = "pgm_width pgm" and ?H = "pgm_height pgm" and ?D = "pgm_data pgm"
  from assms(2) have R: "rect ?D ?W ?H" and W0: "0 \<le> ?W" and H0: "0 \<le> ?H"
    by (auto simp: wf_PGM_def rect_def)
  let ?g1 = "pgm\<lparr>pgm_data := rotated ?D ?W ?H, pgm_width := ?H, pgm_height := ?W\<rparr>"
  let ?g2 = "pgm\<lparr>pgm_data := flipped ?D ?W ?H\<rparr>"
  let ?g3 = "pgm\<lparr>pgm_data := rotated (flipped ?D ?W ?H) ?W ?H, pgm_width := ?H, pgm_height := ?W\<rparr>"
  have WF1: "wf_PGM ?g1" using W0 H0 by (simp add: wf_PGM_def rect_rotated)
  have WF2: "wf_PGM ?g2" using W0 H0 by (simp add: wf_PGM_def rect_flipped)
  have WF3: "wf_PGM ?g3" using W0 H0 by (simp add: wf_PGM_def rect_rotated)
  have S1: "PGM_Rotate90CW pgm = Some ?g1" by (rule PGM_Rotate90CW_wf[OF assms(2)])
  have S2: "PGM_Rotate90CW ?g1 = Some ?g2"
    using PGM_Rotate90CW_wf[OF WF1] by (simp add: rotated_rotated)
  have S3: "PGM_Rotate90CW ?g2 = Some ?g3"
    using PGM_Rotate90CW_wf[OF WF2] by simp
  have S4: "PGM_Rotate90CW ?g3 = Some pgm"
    using PGM_Rotate90CW_wf[OF WF3] by (simp add: rotated_rotated flipped_flipped[OF R])
  have AT: "\<forall>x y. 0 \<le> x \<and> x < ?W \<and> 0 \<le> y \<and> y < ?H \<longrightarrow> PGM_At ?g1 (?H - 1 - y) x = PGM_At pgm x y"
    using get2_rotated[OF R] by (simp add: PGM_At_def)
  have pgm_part: "\<exists>g. PGM_Rotate90CW pgm = Some g \<and>
            pgm_width g = ?H \<and> pgm_height g = ?W \<and> wf_PGM g \<and>
            (\<forall>x y. 0 \<le> x \<and> x < ?W \<and> 0 \<le> y \<and> y < ?H \<longrightarrow> PGM_At g (?H - 1 - y) x = PGM_At pgm x y)"
    using S1 WF1 AT by (intro exI[of _ ?g1]) simp
  have pgm_four: "(PGM_Rotate90CW pgm \<bind> PGM_Rotate90CW \<bind> PGM_Rotate90CW \<bind> PGM_Rotate90CW) = Some pgm"
    by (simp add: S1 S2 S3 S4)
  from ppm_part ppm_four pgm_part pgm_four show ?thesis by blast
qed

text \<open>The theorem at a pixmap and a graymap of width 3 and height 2.\<close>

theorem Rotate90CW_four_cycle_witness:
  "(PPM_Rotate90CW ppm32 \<bind> PPM_Rotate90CW \<bind> PPM_Rotate90CW \<bind> PPM_Rotate90CW) = Some ppm32 \<and>
   (\<exists>p. PPM_Rotate90CW ppm32 = Some p \<and> ppm_width p = 2 \<and> ppm_height p = 3 \<and>
        PPM_At p 1 0 = Some red \<and> PPM_At p 0 2 = Some blue) \<and>
   (PGM_Rotate90CW pgm32 \<bind> PGM_Rotate90CW \<bind> PGM_Rotate90CW \<bind> PGM_Rotate90CW) = Some pgm32 \<and>
   (\<exists>g. PGM_Rotate90CW pgm32 = Some g \<and> pgm_width g = 2 \<and> pgm_height g = 3 \<and>
        PGM_At g 1 0 = Some 10 \<and> PGM_At g 0 2 = Some 60)"
proof -
  have wp: "wf_PPM ppm32" by (simp add: wf_PPM_def rect_def ppm32_def)
  have wg: "wf_PGM pgm32" by (simp add: wf_PGM_def rect_def pgm32_def)
  note T = Rotate90CW_four_cycle[OF wp wg]
  from T obtain p where p: "PPM_Rotate90CW ppm32 = Some p" "ppm_width p = ppm_height ppm32"
    "ppm_height p = ppm_width ppm32"
    "\<forall>x y. 0 \<le> x \<and> x < ppm_width ppm32 \<and> 0 \<le> y \<and> y < ppm_height ppm32 \<longrightarrow>
       PPM_At p (ppm_height ppm32 - 1 - y) x = PPM_At ppm32 x y"
    by blast
  from T obtain g where g: "PGM_Rotate90CW pgm32 = Some g" "pgm_width g = pgm_height pgm32"
    "pgm_height g = pgm_width pgm32"
    "\<forall>x y. 0 \<le> x \<and> x < pgm_width pgm32 \<and> 0 \<le> y \<and> y < pgm_height pgm32 \<longrightarrow>
       PGM_At g (pgm_height pgm32 - 1 - y) x = PGM_At pgm32 x y"
    by blast
  have dp: "ppm_width ppm32 = 3" "ppm_height ppm32 = 2" by (simp_all add: ppm32_def)
  have dg: "pgm_width pgm32 = 3" "pgm_height pgm32 = 2" by (simp_all add: pgm32_def)
  from p(4)[THEN spec, of 0, THEN spec, of 0] have "PPM_At p 1 0 = PPM_At ppm32 0 0"
    by (simp add: dp)
  moreover from p(4)[THEN spec, of 2, THEN spec, of 1] have "PPM_At p 0 2 = PPM_At ppm32 2 1"
    by (simp add: dp)
  ultimately have pa: "PPM_At p 1 0 = Some red" "PPM_At p 0 2 = Some blue"
    by (simp_all add: ppm32_def PPM_At_def get2_def idx_def)
  from g(4)[THEN spec, of 0, THEN spec, of 0] have "PGM_At g 1 0 = PGM_At pgm32 0 0"
    by (simp add: dg)
  moreover from g(4)[THEN spec, of 2, THEN spec, of 1] have "PGM_At g 0 2 = PGM_At pgm32 2 1"
    by (simp add: dg)
  ultimately have ga: "PGM_At g 1 0 = Some 10" "PGM_At g 0 2 = Some 60"
    by (simp_all add: pgm32_def PGM_At_def get2_def idx_def)
  have dims: "ppm_width p = 2" "ppm_height p = 3" "pgm_width g = 2" "pgm_height g = 3"
    using p(2,3) g(2,3) by (simp_all add: dp dg)
  from T p(1) g(1) pa ga dims show ?thesis by blast
qed

section \<open>Pixmap to graymap\<close>




section \<open>Conversion to bitmap\<close>




end
